theory Spec2Isabelle
  imports Main
begin

section \<open>Python strings\<close>

text \<open>
  A Python \<open>str\<close> is a sequence of code points. It is modelled as a HOL \<open>string\<close>, one
  \<open>char\<close> per code point, which covers the code points U+0000 to U+00FF (Basic Latin and
  Latin-1 Supplement). That range holds every character the patterns of \<open>main.py\<close> name,
  the degree sign U+00B0 included, and \<open>str.lower\<close> maps it into itself one code point
  at a time. Texts with code points beyond U+00FF are outside this model: the character
  classes and the case mapping below are those of Python on this range.
\<close>

definition code :: "char \<Rightarrow> nat" where
  "code c = of_char c"

definition degree_sign :: char where
  "degree_sign = CHR 0xB0"

text \<open>\<open>str.lower()\<close> on one code point: A-Z and the capital letters U+00C0..U+00DE
  (without the multiplication sign U+00D7) move up by 32, everything else stays.\<close>

definition lower_char :: "char \<Rightarrow> char" where
  "lower_char c =
     (if (65 \<le> code c \<and> code c \<le> 90) \<or> (192 \<le> code c \<and> code c \<le> 222 \<and> code c \<noteq> 215)
      then char_of (code c + 32) else c)"

definition lower :: "string \<Rightarrow> string" where
  "lower s = map lower_char s"

text \<open>The character classes of \<open>re\<close> on \<open>str\<close> patterns: \<open>\d\<close> (decimal digits),
  \<open>\s\<close> (the same set \<open>str.strip()\<close> removes) and \<open>\w\<close> (alphanumeric or underscore).\<close>

definition is_digit :: "char \<Rightarrow> bool" where
  "is_digit c = (48 \<le> code c \<and> code c \<le> 57)"

definition is_space :: "char \<Rightarrow> bool" where
  "is_space c = ((9 \<le> code c \<and> code c \<le> 13) \<or> (28 \<le> code c \<and> code c \<le> 32)
                 \<or> code c = 133 \<or> code c = 160)"

definition is_word :: "char \<Rightarrow> bool" where
  "is_word c =
     ((48 \<le> code c \<and> code c \<le> 57) \<or> (65 \<le> code c \<and> code c \<le> 90) \<or> code c = 95
      \<or> (97 \<le> code c \<and> code c \<le> 122)
      \<or> code c = 170 \<or> code c = 178 \<or> code c = 179 \<or> code c = 181 \<or> code c = 185
      \<or> code c = 186 \<or> code c = 188 \<or> code c = 189 \<or> code c = 190
      \<or> (192 \<le> code c \<and> code c \<le> 214) \<or> (216 \<le> code c \<and> code c \<le> 246)
      \<or> (248 \<le> code c \<and> code c \<le> 255))"

text \<open>\<open>s.startswith(w)\<close> and the substring test \<open>w in s\<close>.\<close>

fun startswith :: "string \<Rightarrow> string \<Rightarrow> bool" where
  "startswith [] s = True"
| "startswith (a # w) [] = False"
| "startswith (a # w) (b # s) = (a = b \<and> startswith w s)"

fun contains :: "string \<Rightarrow> string \<Rightarrow> bool" where
  "contains w [] = (w = [])"
| "contains w (c # s) = (startswith w (c # s) \<or> contains w s)"

text \<open>\<open>sep.join(xs)\<close>.\<close>

fun join :: "string \<Rightarrow> string list \<Rightarrow> string" where
  "join sep [] = []"
| "join sep [x] = x"
| "join sep (x # y # ys) = x @ sep @ join sep (y # ys)"

text \<open>\<open>s.strip()\<close>: leading and trailing whitespace removed.\<close>

definition strip_by :: "(char \<Rightarrow> bool) \<Rightarrow> string \<Rightarrow> string" where
  "strip_by P s = rev (dropWhile P (rev (dropWhile P s)))"

definition strip :: "string \<Rightarrow> string" where
  "strip s = strip_by is_space s"

text \<open>
  \<open>int(s)\<close> on a string, base 10: whitespace around the number is dropped (for \<open>int\<close> the
  control characters U+001C..U+001F do not count as whitespace), one sign is allowed,
  and the digits may be grouped by single underscores. Anything else raises ValueError.
  The interpreter's limit on the number of digits (4300 by default) is not modelled.
\<close>

datatype error = ValueError | TypeError | AttributeError

definition is_int_space :: "char \<Rightarrow> bool" where
  "is_int_space c = ((9 \<le> code c \<and> code c \<le> 13) \<or> code c = 32 \<or> code c = 133 \<or> code c = 160)"

definition valid_digits :: "string \<Rightarrow> bool" where
  "valid_digits b =
     (b \<noteq> [] \<and> list_all (\<lambda>c. is_digit c \<or> c = CHR ''_'') b
      \<and> is_digit (hd b) \<and> is_digit (last b) \<and> \<not> contains ''__'' b)"

definition digits_value :: "string \<Rightarrow> int" where
  "digits_value b = foldl (\<lambda>v c. v * 10 + (int (code c) - 48)) 0 (filter (\<lambda>c. c \<noteq> CHR ''_'') b)"

definition py_int :: "string \<Rightarrow> error + int" where
  "py_int s =
     (let t = strip_by is_int_space s;
          sg = (case t of [] \<Rightarrow> 1 | c # _ \<Rightarrow> if c = CHR ''-'' then - 1 else 1);
          body = (case t of [] \<Rightarrow> [] | c # b \<Rightarrow> if c = CHR ''-'' \<or> c = CHR ''+'' then b else t)
      in if valid_digits body then Inr (sg * digits_value body) else Inl ValueError)"

section \<open>Regular expressions\<close>

text \<open>
  The part of \<open>re\<close> the two patterns of \<open>main.py\<close> use: literals, greedy repetition of a
  character class (\<open>*\<close>, \<open>+\<close>, \<open>{m,n}\<close>), sequence, alternation, the greedy optional
  \<open>?\<close>, one capturing group and the word boundary \<open>\b\<close>. A matcher state holds the
  character before the current position (for \<open>\b\<close>), the text still to be read and the
  text of group 1. \<open>rmatch\<close> lists the states a pattern can end in, in the order the
  backtracking matcher tries them, so the head of the list is the match \<open>re\<close> reports.
\<close>

datatype regex =
    Lit string
  | Rep "char \<Rightarrow> bool" nat "nat option"
  | Seq regex regex
  | Alt regex regex
  | Opt regex
  | Grp regex
  | WordB

record mstate =
  prev :: "char option"
  rest :: string
  grp :: "string option"

text \<open>Reading \<open>k\<close> characters: the last one read becomes the character before the
  position; when nothing is read it stays what it was.\<close>

definition advance :: "nat \<Rightarrow> mstate \<Rightarrow> mstate" where
  "advance k st =
     st\<lparr>prev := (case take k (rest st) of [] \<Rightarrow> prev st | c # cs \<Rightarrow> Some (last (c # cs))),
        rest := drop k (rest st)\<rparr>"

definition word_before :: "mstate \<Rightarrow> bool" where
  "word_before st = (case prev st of None \<Rightarrow> False | Some c \<Rightarrow> is_word c)"

definition word_after :: "mstate \<Rightarrow> bool" where
  "word_after st = (case rest st of [] \<Rightarrow> False | c # _ \<Rightarrow> is_word c)"

fun rmatch :: "regex \<Rightarrow> mstate \<Rightarrow> mstate list" where
  "rmatch (Lit w) st = (if startswith w (rest st) then [advance (length w) st] else [])"
| "rmatch (Rep cls lo hi) st =
     (let avail = length (takeWhile cls (rest st));
          top = (case hi of None \<Rightarrow> avail | Some h \<Rightarrow> min h avail)
      in map (\<lambda>k. advance k st) (rev [lo ..< Suc top]))"
| "rmatch (Seq r1 r2) st = concat (map (rmatch r2) (rmatch r1 st))"
| "rmatch (Alt r1 r2) st = rmatch r1 st @ rmatch r2 st"
| "rmatch (Opt r) st = rmatch r st @ [st]"
| "rmatch (Grp r) st =
     map (\<lambda>st'. st'\<lparr>grp := Some (take (length (rest st) - length (rest st')) (rest st))\<rparr>)
         (rmatch r st)"
| "rmatch WordB st = (if word_before st \<noteq> word_after st then [st] else [])"

text \<open>\<open>re.search\<close>: the first position, from the left, at which the pattern matches.\<close>

fun search_from :: "regex \<Rightarrow> char option \<Rightarrow> string \<Rightarrow> mstate option" where
  "search_from r p [] =
     (case rmatch r \<lparr>prev = p, rest = [], grp = None\<rparr> of [] \<Rightarrow> None | m # _ \<Rightarrow> Some m)"
| "search_from r p (c # s) =
     (case rmatch r \<lparr>prev = p, rest = c # s, grp = None\<rparr> of
        [] \<Rightarrow> search_from r (Some c) s
      | m # _ \<Rightarrow> Some m)"

definition re_search :: "regex \<Rightarrow> string \<Rightarrow> mstate option" where
  "re_search r s = search_from r None s"

text \<open>\<open>m.group(1)\<close>; \<open>None\<close> when the group took no part in the match.\<close>

definition group1 :: "mstate \<Rightarrow> string option" where
  "group1 m = grp m"

section \<open>The guardrails of main.py\<close>

text \<open>
  The input is a string or a list. Of a list element only two things are read: its
  \<open>content\<close> attribute when it has one, and otherwise its string form; both are kept
  as the result of \<open>str\<close>. An input that is not a list is read through \<open>str\<close> only.
  The parameters \<open>ctx\<close> and \<open>agent\<close> are read by none of the guardrails and are left
  out. A guardrail that raises returns the error as \<open>Inl\<close>.
\<close>

record element =
  content :: "string option"
  str_form :: string

datatype raw_input = Single string | Sequence "element list"

datatype pyval = VStr string | VBool bool | VInt int | VNone

record GuardrailFunctionOutput =
  output_info :: "(string \<times> pyval) list"
  tripwire_triggered :: bool

text \<open>\<open>str(getattr(i, "content", i))\<close>\<close>

definition element_text :: "element \<Rightarrow> string" where
  "element_text i = (case content i of Some c \<Rightarrow> c | None \<Rightarrow> str_form i)"

text \<open>The first four lines of each guardrail, the same in all three: \<open>unified\<close>.\<close>

fun unify :: "raw_input \<Rightarrow> string" where
  "unify (Sequence is) = join '' '' (map element_text is)"
| "unify (Single s) = s"

text \<open>\<open>text = unified.lower()\<close>\<close>

definition normalize :: "raw_input \<Rightarrow> string" where
  "normalize inp = lower (unify inp)"

subsection \<open>Exercise 1\<close>

definition class_timing_guardrail :: "raw_input \<Rightarrow> GuardrailFunctionOutput" where
  "class_timing_guardrail inp =
     (let unified = unify inp; text = lower unified
      in if contains ''change my class timing'' text \<or> contains ''change my class timings'' text
         then \<lparr>output_info = [(''reason'', VStr ''user asked to change class timings''),
                               (''text'', VStr unified)],
               tripwire_triggered = True\<rparr>
         else \<lparr>output_info = [(''ok'', VBool True), (''text'', VStr unified)],
               tripwire_triggered = False\<rparr>)"

subsection \<open>Exercise 2\<close>

text \<open>\<open>(\d{1,2})(?:\s*\<degree>\s*c|\s*\<degree>c|\s*c\b|\<degree>| degrees)?\<close> with \<open>\<degree>\<close> for U+00B0.\<close>

definition temp_pattern :: regex where
  "temp_pattern =
     Seq (Grp (Rep is_digit 1 (Some 2)))
         (Opt (Alt (Seq (Rep is_space 0 None)
                        (Seq (Lit [degree_sign]) (Seq (Rep is_space 0 None) (Lit ''c''))))
              (Alt (Seq (Rep is_space 0 None) (Lit [degree_sign, CHR ''c'']))
              (Alt (Seq (Rep is_space 0 None) (Seq (Lit ''c'') WordB))
              (Alt (Lit [degree_sign])
                   (Lit '' degrees''))))))"

definition father_temp_guardrail :: "raw_input \<Rightarrow> error + GuardrailFunctionOutput" where
  "father_temp_guardrail inp =
     (let unified = unify inp; text = lower unified
      in case re_search temp_pattern text of
           Some m \<Rightarrow>
             (case group1 m of
                None \<Rightarrow> Inl TypeError
              | Some g \<Rightarrow>
                 (case py_int g of
                    Inl e \<Rightarrow> Inl e
                  | Inr temp \<Rightarrow>
                      let info = [(''detected_temp'', VInt temp), (''text'', VStr unified)]
                      in if temp < 26
                         then Inr \<lparr>output_info = info, tripwire_triggered = True\<rparr>
                         else Inr \<lparr>output_info = info, tripwire_triggered = False\<rparr>))
         | None \<Rightarrow>
             Inr \<lparr>output_info = [(''detected_temp'', VNone), (''text'', VStr unified)],
                  tripwire_triggered = False\<rparr>)"

subsection \<open>Exercise 3\<close>

definition triggers :: "string list" where
  "triggers = [''other school'', ''different school'', ''not from my school'',
               ''from other school'', ''student from '']"

text \<open>The loop \<open>for t in triggers: if t in text: return ...\<close>; \<open>None\<close> when it runs
  to its end without returning.\<close>

fun scan_triggers :: "string list \<Rightarrow> string \<Rightarrow> string \<Rightarrow> GuardrailFunctionOutput option" where
  "scan_triggers [] text unified = None"
| "scan_triggers (t # ts) text unified =
     (if contains t text
      then Some \<lparr>output_info = [(''reason'', VStr ''other school detected''),
                                 (''text'', VStr unified)],
                 tripwire_triggered = True\<rparr>
      else scan_triggers ts text unified)"

text \<open>\<open>school[:\s-]*([a-z0-9 ]+)\<close>\<close>

definition is_sep :: "char \<Rightarrow> bool" where
  "is_sep c = (c = CHR '':'' \<or> is_space c \<or> c = CHR ''-'')"

definition is_name_char :: "char \<Rightarrow> bool" where
  "is_name_char c = ((97 \<le> code c \<and> code c \<le> 122) \<or> (48 \<le> code c \<and> code c \<le> 57)
                     \<or> c = CHR '' '')"

definition school_pattern :: regex where
  "school_pattern =
     Seq (Lit ''school'') (Seq (Rep is_sep 0 None) (Grp (Rep is_name_char 1 None)))"

definition gatekeeper_guardrail :: "raw_input \<Rightarrow> error + GuardrailFunctionOutput" where
  "gatekeeper_guardrail inp =
     (let unified = unify inp; text = lower unified;
          allowed = \<lparr>output_info = [(''allowed'', VBool True), (''text'', VStr unified)],
                     tripwire_triggered = False\<rparr>
      in if contains ''from my school'' text \<or> contains ''my school student'' text
         then Inr allowed
         else case scan_triggers triggers text unified of
                Some out \<Rightarrow> Inr out
              | None \<Rightarrow>
                 (case re_search school_pattern text of
                    Some m \<Rightarrow>
                      (case group1 m of
                         None \<Rightarrow> Inl AttributeError
                       | Some g \<Rightarrow>
                          let school_name = strip g
                          in if \<not> contains ''my school'' school_name
                             then Inr \<lparr>output_info = [(''school_name'', VStr school_name),
                                                       (''text'', VStr unified)],
                                       tripwire_triggered = True\<rparr>
                             else Inr allowed)
                  | None \<Rightarrow> Inr allowed))"

section \<open>Normalization as the specification words it\<close>




section \<open>Auxiliary notions for the proofs\<close>

text \<open>A pattern without a capturing group, which leaves group 1 as it was.\<close>

primrec no_grp :: "regex \<Rightarrow> bool" where
  "no_grp (Lit w) = True"
| "no_grp (Rep c lo hi) = True"
| "no_grp (Seq a b) = (no_grp a \<and> no_grp b)"
| "no_grp (Alt a b) = (no_grp a \<and> no_grp b)"
| "no_grp (Opt a) = no_grp a"
| "no_grp (Grp a) = False"
| "no_grp WordB = True"


section \<open>Strings: substring test and join\<close>

lemma startswith_iff: "startswith w s \<longleftrightarrow> (\<exists>b. s = w @ b)"
  by (induction w s rule: startswith.induct) auto

lemma contains_iff: "contains w s \<longleftrightarrow> (\<exists>a b. s = a @ w @ b)"
proof (induction s)
  case Nil
  show ?case by simp
next
  case (Cons c s)
  show ?case
  proof
    assume "contains w (c # s)"
    then consider "startswith w (c # s)" | "contains w s" by auto
    then show "\<exists>a b. c # s = a @ w @ b"
    proof cases
      case 1
      then obtain b where "c # s = w @ b" by (auto simp: startswith_iff)
      then have "c # s = [] @ w @ b" by simp
      then show ?thesis by blast
    next
      case 2
      then obtain a b where "s = a @ w @ b" using Cons.IH by blast
      then have "c # s = (c # a) @ w @ b" by simp
      then show ?thesis by blast
    qed
  next
    assume "\<exists>a b. c # s = a @ w @ b"
    then obtain a b where ab: "c # s = a @ w @ b" by blast
    show "contains w (c # s)"
    proof (cases a)
      case Nil
      with ab have "startswith w (c # s)" by (simp add: startswith_iff)
      then show ?thesis by simp
    next
      case (Cons x a')
      with ab have "s = a' @ w @ b" by simp
      then have "contains w s" using Cons.IH by blast
      then show ?thesis by simp
    qed
  qed
qed



section \<open>The matcher\<close>

lemma grp_advance [simp]: "grp (advance k st) = grp st"
  by (simp add: advance_def)

lemma rest_advance [simp]: "rest (advance k st) = drop k (rest st)"
  by (simp add: advance_def)

lemma no_grp_preserves: "no_grp r \<Longrightarrow> m \<in> set (rmatch r st) \<Longrightarrow> grp m = grp st"
proof (induction r arbitrary: st m)
  case (Seq r1 r2)
  then show ?case by auto
qed (auto simp: Let_def split: if_splits)

lemma rmatch_seq_opt_hd:
  assumes "rmatch a st = a1 # as" "no_grp s"
  shows "\<exists>m ms. rmatch (Seq a (Opt s)) st = m # ms \<and> grp m = grp a1"
proof -
  have ne: "rmatch (Opt s) a1 \<noteq> []" by simp
  then obtain m ms where mm: "rmatch (Opt s) a1 = m # ms" by (cases "rmatch (Opt s) a1") auto
  then have "m \<in> set (rmatch (Opt s) a1)" by simp
  then have "grp m = grp a1" using no_grp_preserves[of "Opt s" m a1] assms(2) by simp
  moreover have "rmatch (Seq a (Opt s)) st = m # (ms @ concat (map (rmatch (Opt s)) as))"
    using assms(1) mm by simp
  ultimately show ?thesis by blast
qed

lemma rmatch_seq_nil: "rmatch a st = [] \<Longrightarrow> rmatch (Seq a b) st = []"
  by simp

subsection \<open>The temperature pattern\<close>

lemma no_grp_temp_suffix:
  "no_grp (Alt (Seq (Rep is_space 0 None)
                        (Seq (Lit [degree_sign]) (Seq (Rep is_space 0 None) (Lit ''c''))))
              (Alt (Seq (Rep is_space 0 None) (Lit [degree_sign, CHR ''c'']))
              (Alt (Seq (Rep is_space 0 None) (Seq (Lit ''c'') WordB))
              (Alt (Lit [degree_sign])
                   (Lit '' degrees'')))))"
  by simp

lemma digits_two:
  assumes "is_digit d1" "is_digit d2" "rest st = d1 # d2 # r"
  shows "\<exists>m ms. rmatch (Grp (Rep is_digit 1 (Some 2))) st = m # ms \<and> grp m = Some [d1, d2]"
proof -
  have "length (takeWhile is_digit (rest st)) \<ge> 2" using assms by simp
  then have "min 2 (length (takeWhile is_digit (rest st))) = 2" by simp
  moreover have "rev [1 ..< Suc 2] = [2, 1]" by (simp add: upt_rec)
  ultimately show ?thesis using assms(3) by (simp add: Let_def)
qed

lemma digits_one:
  assumes "is_digit d1" "r = [] \<or> \<not> is_digit (hd r)" "rest st = d1 # r"
  shows "\<exists>m ms. rmatch (Grp (Rep is_digit 1 (Some 2))) st = m # ms \<and> grp m = Some [d1]"
proof -
  have "takeWhile is_digit (rest st) = [d1]" using assms by (cases r) auto
  then have "min 2 (length (takeWhile is_digit (rest st))) = 1" by simp
  moreover have "rev [1 ..< Suc 1] = [1]" by (simp add: upt_rec)
  ultimately show ?thesis using assms(3) by (simp add: Let_def)
qed

lemma digits_none:
  assumes "rest st = [] \<or> \<not> is_digit (hd (rest st))"
  shows "rmatch (Grp (Rep is_digit 1 (Some 2))) st = []"
proof -
  have "takeWhile is_digit (rest st) = []" using assms by (cases "rest st") auto
  then show ?thesis by (simp add: Let_def)
qed

lemma temp_at_digit:
  assumes "is_digit d" "rest st = d # post"
  shows "\<exists>m ms. rmatch temp_pattern st = m # ms
           \<and> grp m = Some (d # takeWhile is_digit (take 1 post))"
proof (cases "post \<noteq> [] \<and> is_digit (hd post)")
  case True
  then obtain e r where p: "post = e # r" "is_digit e" by (cases post) auto
  from digits_two[OF assms(1) p(2), of st r] assms(2) p(1)
  obtain a1 as where a: "rmatch (Grp (Rep is_digit 1 (Some 2))) st = a1 # as" "grp a1 = Some [d, e]"
    by auto
  from rmatch_seq_opt_hd[OF a(1) no_grp_temp_suffix] a(2) p
  show ?thesis unfolding temp_pattern_def by simp
next
  case False
  then have f: "post = [] \<or> \<not> is_digit (hd post)" by simp
  from digits_one[OF assms(1) f assms(2)]
  obtain a1 as where a: "rmatch (Grp (Rep is_digit 1 (Some 2))) st = a1 # as" "grp a1 = Some [d]"
    by auto
  have "takeWhile is_digit (take 1 post) = []" using f by (cases post) auto
  with rmatch_seq_opt_hd[OF a(1) no_grp_temp_suffix] a(2)
  show ?thesis unfolding temp_pattern_def by simp
qed

lemma temp_at_nondigit:
  assumes "rest st = [] \<or> \<not> is_digit (hd (rest st))"
  shows "rmatch temp_pattern st = []"
  unfolding temp_pattern_def using digits_none[OF assms] by (rule rmatch_seq_nil)

lemma search_temp_none:
  "list_all (\<lambda>c. \<not> is_digit c) s \<Longrightarrow> search_from temp_pattern p s = None"
proof (induction s arbitrary: p)
  case Nil
  have "rmatch temp_pattern \<lparr>prev = p, rest = [], grp = None\<rparr> = []"
    by (rule temp_at_nondigit) simp
  then show ?case by simp
next
  case (Cons c s)
  have "rmatch temp_pattern \<lparr>prev = p, rest = c # s, grp = None\<rparr> = []"
    using Cons.prems by (intro temp_at_nondigit) simp
  then show ?case using Cons by simp
qed

lemma search_temp_first:
  assumes "list_all (\<lambda>c. \<not> is_digit c) pre" "is_digit d"
  shows "\<exists>m. search_from temp_pattern p (pre @ d # post) = Some m
           \<and> grp m = Some (d # takeWhile is_digit (take 1 post))"
  using assms(1)
proof (induction pre arbitrary: p)
  case Nil
  from temp_at_digit[OF assms(2), of "\<lparr>prev = p, rest = d # post, grp = None\<rparr>" post]
  obtain m ms where "rmatch temp_pattern \<lparr>prev = p, rest = d # post, grp = None\<rparr> = m # ms"
    "grp m = Some (d # takeWhile is_digit (take 1 post))" by auto
  then show ?case by simp
next
  case (Cons c pre)
  have "rmatch temp_pattern \<lparr>prev = p, rest = c # pre @ d # post, grp = None\<rparr> = []"
    using Cons.prems by (intro temp_at_nondigit) simp
  then show ?case using Cons by simp
qed

lemma first_digit_split:
  "\<not> list_all (\<lambda>c. \<not> is_digit c) s \<Longrightarrow>
   \<exists>pre d post. s = pre @ d # post \<and> list_all (\<lambda>c. \<not> is_digit c) pre \<and> is_digit d"
proof -
  assume "\<not> list_all (\<lambda>c. \<not> is_digit c) s"
  then have "\<exists>x\<in>set s. is_digit x" by (simp add: list_all_iff)
  from split_list_first_prop[OF this]
  show ?thesis by (auto simp: list_all_iff)
qed


subsection \<open>Parsing the digit group\<close>

lemma digit_not_special:
  "is_digit d \<Longrightarrow> \<not> is_int_space d \<and> \<not> is_space d \<and> d \<noteq> CHR ''-'' \<and> d \<noteq> CHR ''+'' \<and> d \<noteq> CHR ''_''"
  by (auto simp: is_digit_def is_int_space_def is_space_def code_def)

lemma strip_by_ends:
  "s \<noteq> [] \<Longrightarrow> \<not> P (hd s) \<Longrightarrow> \<not> P (last s) \<Longrightarrow> strip_by P s = s"
proof -
  assume a: "s \<noteq> []" "\<not> P (hd s)" "\<not> P (last s)"
  then have "dropWhile P s = s" by (cases s) auto
  moreover have "dropWhile P (rev s) = rev s" using a by (cases "rev s") (auto simp: last_rev[symmetric] hd_rev)
  ultimately show ?thesis by (simp add: strip_by_def)
qed

lemma py_int_one:
  assumes "is_digit d"
  shows "py_int [d] = Inr (int (code d) - 48)"
proof -
  note n = digit_not_special[OF assms]
  have s: "strip_by is_int_space [d] = [d]" using n by (intro strip_by_ends) auto
  have v: "valid_digits [d]" using assms by (simp add: valid_digits_def)
  show ?thesis using n v by (simp add: py_int_def s Let_def digits_value_def)
qed

lemma py_int_two:
  assumes "is_digit d" "is_digit e"
  shows "py_int [d, e] = Inr ((int (code d) - 48) * 10 + (int (code e) - 48))"
proof -
  note n = digit_not_special[OF assms(1)] and n' = digit_not_special[OF assms(2)]
  have s: "strip_by is_int_space [d, e] = [d, e]" using n n' by (intro strip_by_ends) auto
  have v: "valid_digits [d, e]" using assms n n' by (auto simp: valid_digits_def)
  show ?thesis using n n' v by (simp add: py_int_def s Let_def digits_value_def)
qed

lemma py_int_first_group:
  assumes "is_digit d"
  shows "\<exists>temp. py_int (d # takeWhile is_digit (take 1 post)) = Inr temp \<and> 0 \<le> temp \<and> temp \<le> 99"
proof (cases "post \<noteq> [] \<and> is_digit (hd post)")
  case True
  then obtain e r where p: "post = e # r" "is_digit e" by (cases post) auto
  have "0 \<le> (int (code d) - 48) * 10 + (int (code e) - 48)"
       "(int (code d) - 48) * 10 + (int (code e) - 48) \<le> 99"
    using assms p(2) by (auto simp: is_digit_def)
  then show ?thesis using py_int_two[OF assms p(2)] p by simp
next
  case False
  then have "takeWhile is_digit (take 1 post) = []" by (cases post) auto
  moreover have "0 \<le> int (code d) - 48" "int (code d) - 48 \<le> 99" using assms by (auto simp: is_digit_def)
  ultimately show ?thesis using py_int_one[OF assms] by simp
qed

lemma father_no_digit:
  assumes "list_all (\<lambda>c. \<not> is_digit c) (normalize inp)"
  shows "father_temp_guardrail inp =
           Inr \<lparr>output_info = [(''detected_temp'', VNone), (''text'', VStr (unify inp))],
                tripwire_triggered = False\<rparr>"
  using search_temp_none[OF assms, of None]
  by (simp add: father_temp_guardrail_def re_search_def normalize_def Let_def)

lemma father_first_digit:
  assumes "normalize inp = pre @ d # post" "list_all (\<lambda>c. \<not> is_digit c) pre" "is_digit d"
  shows "\<exists>temp. py_int (d # takeWhile is_digit (take 1 post)) = Inr temp \<and> 0 \<le> temp \<and> temp \<le> 99
           \<and> father_temp_guardrail inp =
               Inr \<lparr>output_info = [(''detected_temp'', VInt temp), (''text'', VStr (unify inp))],
                    tripwire_triggered = (temp < 26)\<rparr>"
proof -
  from search_temp_first[OF assms(2,3), of None post] assms(1)
  obtain m where m: "re_search temp_pattern (lower (unify inp)) = Some m"
      "group1 m = Some (d # takeWhile is_digit (take 1 post))"
    by (auto simp: re_search_def normalize_def group1_def)
  from py_int_first_group[OF assms(3), of post]
  obtain temp where t: "py_int (d # takeWhile is_digit (take 1 post)) = Inr temp" "0 \<le> temp" "temp \<le> 99"
    by blast
  have "father_temp_guardrail inp =
               Inr \<lparr>output_info = [(''detected_temp'', VInt temp), (''text'', VStr (unify inp))],
                    tripwire_triggered = (temp < 26)\<rparr>"
    using m t(1) by (simp add: father_temp_guardrail_def Let_def)
  with t show ?thesis by blast
qed

subsection \<open>The school pattern\<close>

lemma take_within_takeWhile:
  "k \<le> length (takeWhile P xs) \<Longrightarrow> take k xs = take k (takeWhile P xs)"
proof -
  assume k: "k \<le> length (takeWhile P xs)"
  have "take k xs = take k (takeWhile P xs @ dropWhile P xs)" by simp
  also have "\<dots> = take k (takeWhile P xs)" using k by (simp del: takeWhile_dropWhile_id)
  finally show ?thesis .
qed

lemma list_all_take_within:
  "k \<le> length (takeWhile P xs) \<Longrightarrow> list_all P (take k xs)"
proof -
  assume k: "k \<le> length (takeWhile P xs)"
  have "set (take k (takeWhile P xs)) \<subseteq> set (takeWhile P xs)" by (rule set_take_subset)
  then have "list_all P (take k (takeWhile P xs))"
    by (auto simp: list_all_iff dest: set_takeWhileD)
  then show ?thesis using take_within_takeWhile[OF k] by simp
qed

lemma set_rmatch_rep_unbounded:
  "set (rmatch (Rep c lo None) st) =
     (\<lambda>k. advance k st) ` {k. lo \<le> k \<and> k \<le> length (takeWhile c (rest st))}"
  by (auto simp: Let_def)

lemma rmatch_lit_school:
  "rmatch (Lit ''school'') st = (if startswith ''school'' (rest st) then [advance 6 st] else [])"
proof -
  have "length ''school'' = 6" by simp
  then show ?thesis by (simp only: rmatch.simps(1))
qed

lemma rmatch_school_unfold:
  "rmatch school_pattern st =
     (if startswith ''school'' (rest st)
      then rmatch (Seq (Rep is_sep 0 None) (Grp (Rep is_name_char 1 None))) (advance 6 st)
      else [])"
  unfolding school_pattern_def by (simp only: rmatch.simps(3) rmatch_lit_school split: if_splits) simp

lemma school_sound:
  assumes "m \<in> set (rmatch school_pattern st)"
  shows "\<exists>seps g post. rest st = ''school'' @ seps @ g @ post \<and> list_all is_sep seps
           \<and> g \<noteq> [] \<and> list_all is_name_char g \<and> grp m = Some g"
proof -
  let ?tail = "Seq (Rep is_sep 0 None) (Grp (Rep is_name_char 1 None))"
  from assms have sw: "startswith ''school'' (rest st)"
    and m1: "m \<in> set (rmatch ?tail (advance 6 st))"
    unfolding rmatch_school_unfold by (simp_all only: split: if_splits) simp_all
  from sw obtain r where r: "rest st = ''school'' @ r" unfolding startswith_iff by blast
  then have r6: "rest (advance 6 st) = r" by simp
  from m1 obtain s1 where s1: "s1 \<in> set (rmatch (Rep is_sep 0 None) (advance 6 st))"
    and m2: "m \<in> set (rmatch (Grp (Rep is_name_char 1 None)) s1)"
    by (auto simp del: rmatch.simps(2,6))
  from s1 obtain k where k: "k \<le> length (takeWhile is_sep r)" "s1 = advance k (advance 6 st)"
    unfolding set_rmatch_rep_unbounded r6 by auto
  then have rs1: "rest s1 = drop k r" using r6 by simp
  from m2 obtain s2 where s2: "s2 \<in> set (rmatch (Rep is_name_char 1 None) s1)"
    and m3: "m = s2\<lparr>grp := Some (take (length (rest s1) - length (rest s2)) (rest s1))\<rparr>"
    by (auto simp del: rmatch.simps(2))
  from s2 obtain j where j: "1 \<le> j" "j \<le> length (takeWhile is_name_char (drop k r))"
      "s2 = advance j s1"
    unfolding set_rmatch_rep_unbounded rs1 by auto
  have jl: "j \<le> length (drop k r)"
    using j(2) length_takeWhile_le[of is_name_char "drop k r"] by linarith
  have "rest s2 = drop j (drop k r)" using j(3) rs1 by simp
  then have "length (rest s1) - length (rest s2) = j" using rs1 jl by simp
  with m3 rs1 have g: "grp m = Some (take j (drop k r))" by simp
  have "take j (drop k r) \<noteq> []" using j(1) jl by (cases "drop k r") auto
  moreover have "list_all is_name_char (take j (drop k r))"
    using j(2) by (rule list_all_take_within)
  moreover have "list_all is_sep (take k r)" using k(1) by (rule list_all_take_within)
  moreover have "rest st = ''school'' @ take k r @ take j (drop k r) @ drop j (drop k r)"
    unfolding r by (simp only: append_take_drop_id)
  ultimately show ?thesis using g by blast
qed

lemma school_complete:
  assumes "rest st = ''school'' @ seps @ g @ post" "list_all is_sep seps" "g \<noteq> []"
          "list_all is_name_char g"
  shows "rmatch school_pattern st \<noteq> []"
proof -
  let ?r = "seps @ g @ post"
  let ?s1 = "advance (length seps) (advance 6 st)"
  have r6: "rest (advance 6 st) = ?r" using assms(1) by simp
  have "takeWhile is_sep ?r = seps @ takeWhile is_sep (g @ post)"
    using assms(2) by (simp add: list_all_iff takeWhile_append2)
  then have "length seps \<le> length (takeWhile is_sep (rest (advance 6 st)))" using r6 by simp
  then have a: "?s1 \<in> set (rmatch (Rep is_sep 0 None) (advance 6 st))"
    unfolding set_rmatch_rep_unbounded by blast
  have rs1: "rest ?s1 = g @ post" using r6 by simp
  have "takeWhile is_name_char (g @ post) = g @ takeWhile is_name_char post"
    using assms(4) by (simp add: list_all_iff takeWhile_append2)
  then have "1 \<le> length (takeWhile is_name_char (rest ?s1))"
    using rs1 assms(3) by (cases g) auto
  then have "advance 1 ?s1 \<in> set (rmatch (Rep is_name_char 1 None) ?s1)"
    unfolding set_rmatch_rep_unbounded by blast
  then have "rmatch (Grp (Rep is_name_char 1 None)) ?s1 \<noteq> []"
    by (auto simp del: rmatch.simps(2))
  with a have "set (rmatch (Seq (Rep is_sep 0 None) (Grp (Rep is_name_char 1 None))) (advance 6 st)) \<noteq> {}"
    by (auto simp del: rmatch.simps(2,6))
  moreover have "startswith ''school'' (rest st)" unfolding startswith_iff using assms(1) by blast
  ultimately show ?thesis
    unfolding rmatch_school_unfold by (simp only: if_True) auto
qed

lemma search_school_sound:
  "search_from school_pattern p s = Some m \<Longrightarrow>
   \<exists>pre seps g post. s = pre @ ''school'' @ seps @ g @ post \<and> list_all is_sep seps
      \<and> g \<noteq> [] \<and> list_all is_name_char g \<and> grp m = Some g"
proof (induction s arbitrary: p)
  case Nil
  then obtain ms where "rmatch school_pattern \<lparr>prev = p, rest = [], grp = None\<rparr> = m # ms"
    by (auto split: list.splits)
  then have "m \<in> set (rmatch school_pattern \<lparr>prev = p, rest = [], grp = None\<rparr>)" by simp
  from school_sound[OF this] show ?case by simp
next
  case (Cons c s)
  show ?case
  proof (cases "rmatch school_pattern \<lparr>prev = p, rest = c # s, grp = None\<rparr>")
    case Nil
    with Cons.prems have "search_from school_pattern (Some c) s = Some m" by simp
    from Cons.IH[OF this] obtain pre seps g post where
      d: "s = pre @ ''school'' @ seps @ g @ post" "list_all is_sep seps" "g \<noteq> []"
         "list_all is_name_char g" "grp m = Some g"
      by blast
    from d(1) have "c # s = (c # pre) @ ''school'' @ seps @ g @ post" by simp
    with d(2-5) show ?thesis by blast
  next
    case (Cons m' ms)
    with Cons.prems have "m' = m" by simp
    with Cons have "m \<in> set (rmatch school_pattern \<lparr>prev = p, rest = c # s, grp = None\<rparr>)"
      by simp
    from school_sound[OF this] obtain seps g post where
      d: "c # s = ''school'' @ seps @ g @ post" "list_all is_sep seps" "g \<noteq> []"
         "list_all is_name_char g" "grp m = Some g"
      by auto
    from d(1) have "c # s = [] @ ''school'' @ seps @ g @ post" by simp
    with d(2-5) show ?thesis by blast
  qed
qed

lemma search_school_complete:
  assumes "list_all is_sep seps" "g \<noteq> []" "list_all is_name_char g"
  shows "search_from school_pattern p (pre @ ''school'' @ seps @ g @ post) \<noteq> None"
proof (induction pre arbitrary: p)
  case Nil
  have "rmatch school_pattern \<lparr>prev = p, rest = ''school'' @ seps @ g @ post, grp = None\<rparr> \<noteq> []"
    by (rule school_complete[OF _ assms]) simp
  then show ?case by (auto split: list.splits)
next
  case (Cons c pre)
  then show ?case by (auto split: list.splits)
qed

lemma takeWhile_take_length: "take (length (takeWhile P xs)) xs = takeWhile P xs"
proof -
  have "take (length (takeWhile P xs)) (takeWhile P xs @ dropWhile P xs) = takeWhile P xs"
    by (simp del: takeWhile_dropWhile_id)
  then show ?thesis by simp
qed

lemma name_char_not_sep: "is_name_char c \<Longrightarrow> c \<noteq> CHR '' '' \<Longrightarrow> \<not> is_sep c"
  by (auto simp: is_name_char_def is_sep_def is_space_def code_def)

lemma rev_upt_Suc: "lo \<le> n \<Longrightarrow> rev [lo ..< Suc n] = n # rev [lo ..< n]"
  by simp

lemma name_run_greedy:
  assumes "rest s1 = c # r" "is_name_char c"
  shows "\<exists>m ms. rmatch (Grp (Rep is_name_char 1 None)) s1 = m # ms
            \<and> grp m = Some (takeWhile is_name_char (c # r))"
proof -
  let ?a = "length (takeWhile is_name_char (rest s1))"
  have a1: "1 \<le> ?a" using assms by simp
  have al: "?a \<le> length (rest s1)" by (rule length_takeWhile_le)
  have "rmatch (Rep is_name_char 1 None) s1 = map (\<lambda>k. advance k s1) (rev [1 ..< Suc ?a])"
    by (simp add: Let_def)
  also have "\<dots> = advance ?a s1 # map (\<lambda>k. advance k s1) (rev [1 ..< ?a])"
    using rev_upt_Suc[OF a1] by simp
  finally have e: "rmatch (Rep is_name_char 1 None) s1
                     = advance ?a s1 # map (\<lambda>k. advance k s1) (rev [1 ..< ?a])" .
  let ?m = "(advance ?a s1)\<lparr>grp := Some (take (length (rest s1) - length (rest (advance ?a s1))) (rest s1))\<rparr>"
  have "length (rest s1) - length (rest (advance ?a s1)) = ?a" using al by simp
  then have "grp ?m = Some (take ?a (rest s1))" by simp
  then have g: "grp ?m = Some (takeWhile is_name_char (c # r))"
    using assms(1) by (simp only: takeWhile_take_length)
  have "\<exists>ms. rmatch (Grp (Rep is_name_char 1 None)) s1 = ?m # ms"
    by (simp only: rmatch.simps(6) e list.map) blast
  with g show ?thesis by blast
qed

lemma school_greedy:
  assumes "rest st = ''school'' @ seps @ c # r" "list_all is_sep seps" "is_name_char c"
          "c \<noteq> CHR '' ''"
  shows "\<exists>m ms. rmatch school_pattern st = m # ms
            \<and> grp m = Some (takeWhile is_name_char (c # r))"
proof -
  let ?s6 = "advance 6 st"
  let ?G = "Grp (Rep is_name_char 1 None)"
  let ?n = "length seps"
  have sw: "startswith ''school'' (rest st)" unfolding startswith_iff using assms(1) by blast
  have r6: "rest ?s6 = seps @ c # r" using assms(1) by simp
  have ns: "\<not> is_sep c" using assms(3,4) by (rule name_char_not_sep)
  have tw: "takeWhile is_sep (rest ?s6) = seps"
    unfolding r6 using assms(2) ns by (simp add: list_all_iff takeWhile_append2)
  have "rmatch (Rep is_sep 0 None) ?s6
          = map (\<lambda>k. advance k ?s6) (rev [0 ..< Suc (length (takeWhile is_sep (rest ?s6)))])"
    by (simp add: Let_def)
  then have "rmatch (Rep is_sep 0 None) ?s6 = map (\<lambda>k. advance k ?s6) (rev [0 ..< Suc ?n])"
    by (simp only: tw)
  then have e: "rmatch (Rep is_sep 0 None) ?s6
                  = advance ?n ?s6 # map (\<lambda>k. advance k ?s6) (rev [0 ..< ?n])"
    by simp
  have "rest (advance ?n ?s6) = c # r" using r6 by simp
  from name_run_greedy[OF this assms(3)] obtain m ms where
    m: "rmatch ?G (advance ?n ?s6) = m # ms" "grp m = Some (takeWhile is_name_char (c # r))"
    by blast
  have "rmatch (Seq (Rep is_sep 0 None) ?G) ?s6
          = m # (ms @ concat (map (rmatch ?G) (map (\<lambda>k. advance k ?s6) (rev [0 ..< ?n]))))"
    by (simp only: rmatch.simps(3) e list.map concat.simps m(1) append_Cons)
  with m(2) sw show ?thesis unfolding rmatch_school_unfold by simp
qed

lemma startswith_within:
  assumes "startswith w (a @ b)" "length w \<le> length a"
  shows "startswith w a"
proof -
  from assms(1) obtain t where t: "a @ b = w @ t" unfolding startswith_iff by blast
  then have "take (length w) (a @ b) = w" by simp
  then have "take (length w) a = w" using assms(2) by simp
  then have "a = w @ drop (length w) a" by (metis append_take_drop_id)
  then show ?thesis unfolding startswith_iff by blast
qed

lemma search_school_first:
  assumes "list_all is_sep seps" "is_name_char c" "c \<noteq> CHR '' ''"
  shows "\<not> contains ''school'' (pre @ ''schoo'') \<Longrightarrow>
         \<exists>m. search_from school_pattern p (pre @ ''school'' @ seps @ c # r) = Some m
            \<and> grp m = Some (takeWhile is_name_char (c # r))"
proof (induction pre arbitrary: p)
  case Nil
  have "rest \<lparr>prev = p, rest = ''school'' @ seps @ c # r, grp = None\<rparr> = ''school'' @ seps @ c # r"
    by simp
  from school_greedy[OF this assms] show ?case by auto
next
  case (Cons x pre)
  from Cons.prems have ns: "\<not> startswith ''school'' ((x # pre) @ ''schoo'')"
    and nc: "\<not> contains ''school'' (pre @ ''schoo'')"
    by simp_all
  let ?st = "\<lparr>prev = p, rest = x # pre @ ''school'' @ seps @ c # r, grp = None\<rparr>"
  have eq: "((x # pre) @ ''schoo'') @ (''l'' @ seps @ c # r) = x # pre @ ''school'' @ seps @ c # r"
    by simp
  have nsw: "\<not> startswith ''school'' (rest ?st)"
  proof
    assume "startswith ''school'' (rest ?st)"
    then have "startswith ''school'' (((x # pre) @ ''schoo'') @ (''l'' @ seps @ c # r))"
      by (simp only: mstate.select_convs eq)
    then have "startswith ''school'' ((x # pre) @ ''schoo'')"
      by (rule startswith_within) simp
    with ns show False by (rule notE)
  qed
  have "rmatch school_pattern ?st = []"
    by (simp only: rmatch_school_unfold nsw if_False)
  then have "search_from school_pattern p ((x # pre) @ ''school'' @ seps @ c # r)
               = search_from school_pattern (Some x) (pre @ ''school'' @ seps @ c # r)"
    by simp
  with Cons.IH[OF nc] show ?case by simp
qed

subsection \<open>Stripping the captured name\<close>

lemma dropWhile_keeps_word:
  assumes "w \<noteq> []" "\<not> P (hd w)"
  shows "\<exists>a'. dropWhile P (a @ w @ b) = a' @ w @ b"
proof (induction a)
  case Nil
  have "dropWhile P (w @ b) = w @ b" using assms by (cases w) auto
  then have "dropWhile P ([] @ w @ b) = [] @ w @ b" by simp
  then show ?case by blast
next
  case (Cons c a)
  show ?case
  proof (cases "P c")
    case True
    then show ?thesis using Cons by simp
  next
    case False
    then have "dropWhile P ((c # a) @ w @ b) = (c # a) @ w @ b" by simp
    then show ?thesis by blast
  qed
qed

lemma strip_by_sublist: "\<exists>x y. s = x @ strip_by P s @ y"
proof -
  let ?d = "dropWhile P s"
  have 1: "s = takeWhile P s @ ?d" by simp
  have "rev ?d = takeWhile P (rev ?d) @ dropWhile P (rev ?d)" by simp
  then have "rev (rev ?d) = rev (takeWhile P (rev ?d) @ dropWhile P (rev ?d))" by (rule arg_cong)
  then have 2: "?d = strip_by P s @ rev (takeWhile P (rev ?d))"
    by (simp add: strip_by_def del: takeWhile_dropWhile_id)
  have "s = takeWhile P s @ strip_by P s @ rev (takeWhile P (rev ?d))"
    using 1 2 by metis
  then show ?thesis by blast
qed

lemma contains_strip_by:
  assumes "w \<noteq> []" "\<not> P (hd w)" "\<not> P (last w)"
  shows "contains w (strip_by P s) = contains w s"
proof
  assume "contains w (strip_by P s)"
  then obtain a b where ab: "strip_by P s = a @ w @ b" unfolding contains_iff by blast
  from strip_by_sublist[of s P] obtain x y where "s = x @ strip_by P s @ y" by blast
  with ab have "s = (x @ a) @ w @ (b @ y)" by simp
  then show "contains w s" unfolding contains_iff by blast
next
  assume "contains w s"
  then obtain a b where ab: "s = a @ w @ b" unfolding contains_iff by blast
  from dropWhile_keeps_word[of w P a b] assms(1,2) obtain a' where
    1: "dropWhile P s = a' @ w @ b" using ab by blast
  have rw: "rev w \<noteq> []" "\<not> P (hd (rev w))" using assms by (simp_all add: hd_rev)
  from dropWhile_keeps_word[of "rev w" P "rev b" "rev a'"] rw obtain b' where
    2: "dropWhile P (rev b @ rev w @ rev a') = b' @ rev w @ rev a'" by blast
  have "strip_by P s = rev (dropWhile P (rev b @ rev w @ rev a'))"
    by (simp add: strip_by_def 1)
  then have "strip_by P s = a' @ w @ rev b'" using 2 by simp
  then show "contains w (strip_by P s)" unfolding contains_iff by blast
qed

lemma contains_my_school_strip:
  "contains ''my school'' (strip g) = contains ''my school'' g"
  unfolding strip_def by (rule contains_strip_by) (simp_all add: is_space_def code_def)

section \<open>The gatekeeper's branches\<close>

lemma scan_triggers_first:
  assumes "contains t text" "list_all (\<lambda>p. \<not> contains p text) ps"
  shows "scan_triggers (ps @ t # qs) text unified =
           Some \<lparr>output_info = [(''reason'', VStr ''other school detected''),
                                 (''text'', VStr unified)],
                 tripwire_triggered = True\<rparr>"
  using assms(2) by (induction ps) (simp_all add: assms(1))

lemma scan_triggers_none:
  "list_all (\<lambda>p. \<not> contains p text) ts \<Longrightarrow> scan_triggers ts text unified = None"
  by (induction ts) simp_all

lemma first_hit_split:
  assumes "\<not> list_all (\<lambda>p. \<not> contains p text) ts"
  shows "\<exists>ps t qs. ts = ps @ t # qs \<and> contains t text \<and> list_all (\<lambda>p. \<not> contains p text) ps"
proof -
  from assms have "\<exists>x\<in>set ts. contains x text" by (simp add: list_all_iff)
  from split_list_first_prop[OF this] show ?thesis by (auto simp: list_all_iff)
qed

lemma gatekeeper_fallback:
  assumes "\<not> contains ''from my school'' (normalize inp)"
          "\<not> contains ''my school student'' (normalize inp)"
          "list_all (\<lambda>p. \<not> contains p (normalize inp)) triggers"
  shows "gatekeeper_guardrail inp =
     (case re_search school_pattern (normalize inp) of
        None \<Rightarrow> Inr \<lparr>output_info = [(''allowed'', VBool True), (''text'', VStr (unify inp))],
                     tripwire_triggered = False\<rparr>
      | Some m \<Rightarrow>
         (case group1 m of
            None \<Rightarrow> Inl AttributeError
          | Some g \<Rightarrow>
             if contains ''my school'' g
             then Inr \<lparr>output_info = [(''allowed'', VBool True), (''text'', VStr (unify inp))],
                       tripwire_triggered = False\<rparr>
             else Inr \<lparr>output_info = [(''school_name'', VStr (strip g)), (''text'', VStr (unify inp))],
                       tripwire_triggered = True\<rparr>))"
proof -
  have s: "scan_triggers triggers (lower (unify inp)) (unify inp) = None"
    using scan_triggers_none[OF assms(3)] by (simp only: normalize_def)
  have a: "\<not> (contains ''from my school'' (lower (unify inp))
             \<or> contains ''my school student'' (lower (unify inp)))"
    using assms(1,2) by (simp only: normalize_def) blast
  show ?thesis
    unfolding gatekeeper_guardrail_def Let_def normalize_def
    by (simp only: a s if_False option.case contains_my_school_strip)
       (simp split: option.splits)
qed

lemma gatekeeper_fallback_cases:
  assumes "\<not> contains ''from my school'' (normalize inp)"
          "\<not> contains ''my school student'' (normalize inp)"
          "list_all (\<lambda>p. \<not> contains p (normalize inp)) triggers"
  shows "case re_search school_pattern (normalize inp) of
        None \<Rightarrow>
          \<not> (\<exists>pre seps g post. normalize inp = pre @ ''school'' @ seps @ g @ post
                \<and> list_all is_sep seps \<and> g \<noteq> [] \<and> list_all is_name_char g)
          \<and> gatekeeper_guardrail inp =
              Inr \<lparr>output_info = [(''allowed'', VBool True), (''text'', VStr (unify inp))],
                   tripwire_triggered = False\<rparr>
      | Some m \<Rightarrow>
          (\<exists>pre seps g post. normalize inp = pre @ ''school'' @ seps @ g @ post
             \<and> list_all is_sep seps \<and> g \<noteq> [] \<and> list_all is_name_char g
             \<and> group1 m = Some g
             \<and> gatekeeper_guardrail inp =
                 (if contains ''my school'' g
                  then Inr \<lparr>output_info = [(''allowed'', VBool True), (''text'', VStr (unify inp))],
                            tripwire_triggered = False\<rparr>
                  else Inr \<lparr>output_info = [(''school_name'', VStr (strip g)),
                                            (''text'', VStr (unify inp))],
                            tripwire_triggered = True\<rparr>))"
proof (cases "re_search school_pattern (normalize inp)")
  case None
  have "\<not> (\<exists>pre seps g post. normalize inp = pre @ ''school'' @ seps @ g @ post
                \<and> list_all is_sep seps \<and> g \<noteq> [] \<and> list_all is_name_char g)"
  proof
    assume "\<exists>pre seps g post. normalize inp = pre @ ''school'' @ seps @ g @ post
                \<and> list_all is_sep seps \<and> g \<noteq> [] \<and> list_all is_name_char g"
    then obtain pre seps g post where
      d: "normalize inp = pre @ ''school'' @ seps @ g @ post" "list_all is_sep seps" "g \<noteq> []"
         "list_all is_name_char g" by blast
    from search_school_complete[OF d(2-4), of None pre post] None d(1)
    show False by (simp add: re_search_def)
  qed
  then show ?thesis using gatekeeper_fallback[OF assms] None by simp
next
  case (Some m)
  then have "search_from school_pattern None (normalize inp) = Some m" by (simp add: re_search_def)
  from search_school_sound[OF this] obtain pre seps g post where
    d: "normalize inp = pre @ ''school'' @ seps @ g @ post" "list_all is_sep seps" "g \<noteq> []"
       "list_all is_name_char g" "group1 m = Some g"
    unfolding group1_def by blast
  have "gatekeeper_guardrail inp =
                 (if contains ''my school'' g
                  then Inr \<lparr>output_info = [(''allowed'', VBool True), (''text'', VStr (unify inp))],
                            tripwire_triggered = False\<rparr>
                  else Inr \<lparr>output_info = [(''school_name'', VStr (strip g)),
                                            (''text'', VStr (unify inp))],
                            tripwire_triggered = True\<rparr>)"
    using gatekeeper_fallback[OF assms] Some d(5) by simp
  with d Some show ?thesis by (simp only: option.case) blast
qed

lemma gatekeeper_total_text:
  "\<exists>out. gatekeeper_guardrail inp = Inr out
      \<and> map_of (output_info out) ''text'' = Some (VStr (unify inp))"
proof (cases "contains ''from my school'' (normalize inp) \<or> contains ''my school student'' (normalize inp)")
  case True
  then have "gatekeeper_guardrail inp =
            Inr \<lparr>output_info = [(''allowed'', VBool True), (''text'', VStr (unify inp))],
                 tripwire_triggered = False\<rparr>"
    by (simp add: gatekeeper_guardrail_def normalize_def Let_def)
  then show ?thesis by simp
next
  case na: False
  show ?thesis
  proof (cases "list_all (\<lambda>p. \<not> contains p (normalize inp)) triggers")
    case False
    from first_hit_split[OF this] obtain ps t qs where
      s: "triggers = ps @ t # qs" "contains t (normalize inp)"
         "list_all (\<lambda>p. \<not> contains p (normalize inp)) ps" by blast
    have "scan_triggers triggers (normalize inp) (unify inp) =
            Some \<lparr>output_info = [(''reason'', VStr ''other school detected''),
                                 (''text'', VStr (unify inp))],
                 tripwire_triggered = True\<rparr>"
      unfolding s(1) by (rule scan_triggers_first[OF s(2,3)])
    with na have "gatekeeper_guardrail inp =
            Inr \<lparr>output_info = [(''reason'', VStr ''other school detected''),
                                 (''text'', VStr (unify inp))],
                 tripwire_triggered = True\<rparr>"
      by (simp add: gatekeeper_guardrail_def normalize_def Let_def)
    then show ?thesis by simp
  next
    case True
    from na have n1: "\<not> contains ''from my school'' (normalize inp)"
      and n2: "\<not> contains ''my school student'' (normalize inp)" by blast+
    from gatekeeper_fallback_cases[OF n1 n2 True]
    show ?thesis by (cases "re_search school_pattern (normalize inp)") (auto split: if_splits)
  qed
qed

lemma father_total_text:
  "\<exists>out. father_temp_guardrail inp = Inr out
      \<and> map_of (output_info out) ''text'' = Some (VStr (unify inp))"
proof (cases "list_all (\<lambda>c. \<not> is_digit c) (normalize inp)")
  case True
  from father_no_digit[OF this] show ?thesis by simp
next
  case False
  from first_digit_split[OF False] obtain pre d post where
    "normalize inp = pre @ d # post" "list_all (\<lambda>c. \<not> is_digit c) pre" "is_digit d" by blast
  from father_first_digit[OF this] show ?thesis by auto
qed

section \<open>Claims about the Temperature Predicate\<close>





section \<open>Claims about normalization\<close>




text \<open>
  C10. For the empty sequence and for the empty string the normalized text is empty and
  none of the three predicates triggers; the diagnostics are \<open>ok: True\<close> for the
  Class-Timing Predicate, \<open>detected_temp: None\<close> for the Temperature Predicate and
  \<open>allowed: True\<close> for the School-Gatekeeper Predicate.
\<close>

theorem empty_inputs:
  "normalize (Sequence []) = [] \<and> normalize (Single []) = []
   \<and> class_timing_guardrail (Sequence []) =
       \<lparr>output_info = [(''ok'', VBool True), (''text'', VStr [])], tripwire_triggered = False\<rparr>
   \<and> class_timing_guardrail (Single []) =
       \<lparr>output_info = [(''ok'', VBool True), (''text'', VStr [])], tripwire_triggered = False\<rparr>
   \<and> father_temp_guardrail (Sequence []) =
       Inr \<lparr>output_info = [(''detected_temp'', VNone), (''text'', VStr [])],
            tripwire_triggered = False\<rparr>
   \<and> father_temp_guardrail (Single []) =
       Inr \<lparr>output_info = [(''detected_temp'', VNone), (''text'', VStr [])],
            tripwire_triggered = False\<rparr>
   \<and> gatekeeper_guardrail (Sequence []) =
       Inr \<lparr>output_info = [(''allowed'', VBool True), (''text'', VStr [])],
            tripwire_triggered = False\<rparr>
   \<and> gatekeeper_guardrail (Single []) =
       Inr \<lparr>output_info = [(''allowed'', VBool True), (''text'', VStr [])],
            tripwire_triggered = False\<rparr>"
  by code_simp

section \<open>Claims about the Class-Timing Predicate\<close>

text \<open>
  C3. The Class-Timing Predicate triggers exactly when the normalized text has
  \<open>change my class timing\<close> or \<open>change my class timings\<close> as a substring, at any
  place and with no regard to word boundaries. When it triggers the diagnostics hold
  \<open>reason\<close> with the text \<open>user asked to change class timings\<close>; when it does not they
  hold \<open>ok: True\<close>.
\<close>

theorem class_timing_iff:
  "tripwire_triggered (class_timing_guardrail inp) =
     ((\<exists>a b. normalize inp = a @ ''change my class timing'' @ b)
      \<or> (\<exists>a b. normalize inp = a @ ''change my class timings'' @ b))
   \<and> class_timing_guardrail inp =
       (if tripwire_triggered (class_timing_guardrail inp)
        then \<lparr>output_info = [(''reason'', VStr ''user asked to change class timings''),
                              (''text'', VStr (unify inp))],
              tripwire_triggered = True\<rparr>
        else \<lparr>output_info = [(''ok'', VBool True), (''text'', VStr (unify inp))],
              tripwire_triggered = False\<rparr>)
   \<and> map_of (output_info (class_timing_guardrail inp)) ''reason'' =
       (if tripwire_triggered (class_timing_guardrail inp)
        then Some (VStr ''user asked to change class timings'') else None)
   \<and> map_of (output_info (class_timing_guardrail inp)) ''ok'' =
       (if tripwire_triggered (class_timing_guardrail inp) then None else Some (VBool True))"
proof -
  have t: "tripwire_triggered (class_timing_guardrail inp) =
     (contains ''change my class timing'' (normalize inp)
      \<or> contains ''change my class timings'' (normalize inp))"
    by (simp add: class_timing_guardrail_def normalize_def Let_def)
  have r: "class_timing_guardrail inp =
       (if tripwire_triggered (class_timing_guardrail inp)
        then \<lparr>output_info = [(''reason'', VStr ''user asked to change class timings''),
                              (''text'', VStr (unify inp))],
              tripwire_triggered = True\<rparr>
        else \<lparr>output_info = [(''ok'', VBool True), (''text'', VStr (unify inp))],
              tripwire_triggered = False\<rparr>)"
    by (simp add: class_timing_guardrail_def normalize_def Let_def)
  have m1: "map_of (output_info (class_timing_guardrail inp)) ''reason'' =
       (if tripwire_triggered (class_timing_guardrail inp)
        then Some (VStr ''user asked to change class timings'') else None)"
    by (subst (1) r) simp
  have m2: "map_of (output_info (class_timing_guardrail inp)) ''ok'' =
       (if tripwire_triggered (class_timing_guardrail inp) then None else Some (VBool True))"
    by (subst (1) r) simp
  from t r m1 m2 show ?thesis unfolding contains_iff by blast
qed

theorem class_timing_iff_witness:
  "tripwire_triggered (class_timing_guardrail (Single ''Please reCHANGE MY CLASS TIMINGz now''))
   \<and> \<not> tripwire_triggered (class_timing_guardrail (Single ''change my class time''))"
proof -
  have a: "normalize (Single ''Please reCHANGE MY CLASS TIMINGz now'')
             = ''please re'' @ ''change my class timing'' @ ''z now''"
    by code_simp
  have b: "\<not> contains ''change my class timing'' (normalize (Single ''change my class time''))
         \<and> \<not> contains ''change my class timings'' (normalize (Single ''change my class time''))"
    by code_simp
  from a class_timing_iff [of "Single ''Please reCHANGE MY CLASS TIMINGz now''", THEN conjunct1]
  have 1: "tripwire_triggered (class_timing_guardrail (Single ''Please reCHANGE MY CLASS TIMINGz now''))"
    by blast
  from b class_timing_iff [of "Single ''change my class time''", THEN conjunct1]
  have 2: "\<not> tripwire_triggered (class_timing_guardrail (Single ''change my class time''))"
    unfolding contains_iff by blast
  from 1 2 show ?thesis by simp
qed

section \<open>Claims about the School-Gatekeeper Predicate\<close>

text \<open>
  C2. When the normalized text contains \<open>from my school\<close> or \<open>my school student\<close>
  the School-Gatekeeper Predicate does not trigger and reports \<open>allowed: True\<close>, whatever
  deny-phrases the text holds as well. The input
  \<open>other school but I am a my school student\<close> contains the deny-phrase
  \<open>other school\<close> and is allowed.
\<close>

theorem gatekeeper_allow_precedence:
  "(contains ''from my school'' (normalize inp) \<or> contains ''my school student'' (normalize inp)
      \<longrightarrow> gatekeeper_guardrail inp =
            Inr \<lparr>output_info = [(''allowed'', VBool True), (''text'', VStr (unify inp))],
                 tripwire_triggered = False\<rparr>)
   \<and> contains ''other school'' (normalize (Single ''other school but I am a my school student''))
   \<and> gatekeeper_guardrail (Single ''other school but I am a my school student'') =
       Inr \<lparr>output_info = [(''allowed'', VBool True),
                            (''text'', VStr ''other school but I am a my school student'')],
            tripwire_triggered = False\<rparr>"
proof (intro conjI impI)
  assume "contains ''from my school'' (normalize inp) \<or> contains ''my school student'' (normalize inp)"
  then show "gatekeeper_guardrail inp =
            Inr \<lparr>output_info = [(''allowed'', VBool True), (''text'', VStr (unify inp))],
                 tripwire_triggered = False\<rparr>"
    by (simp add: gatekeeper_guardrail_def normalize_def Let_def)
next
  show "contains ''other school'' (normalize (Single ''other school but I am a my school student''))"
    by code_simp
next
  show "gatekeeper_guardrail (Single ''other school but I am a my school student'') =
       Inr \<lparr>output_info = [(''allowed'', VBool True),
                            (''text'', VStr ''other school but I am a my school student'')],
            tripwire_triggered = False\<rparr>"
    by code_simp
qed

theorem gatekeeper_allow_precedence_witness:
  "contains ''from my school'' (normalize (Single ''Student from Other School, not from My School''))
   \<and> contains ''other school'' (normalize (Single ''Student from Other School, not from My School''))
   \<and> contains ''not from my school'' (normalize (Single ''Student from Other School, not from My School''))
   \<and> contains ''student from '' (normalize (Single ''Student from Other School, not from My School''))
   \<and> gatekeeper_guardrail (Single ''Student from Other School, not from My School'') =
       Inr \<lparr>output_info = [(''allowed'', VBool True),
                            (''text'', VStr ''Student from Other School, not from My School'')],
            tripwire_triggered = False\<rparr>"
proof -
  have h: "contains ''from my school'' (normalize (Single ''Student from Other School, not from My School''))
   \<and> contains ''other school'' (normalize (Single ''Student from Other School, not from My School''))
   \<and> contains ''not from my school'' (normalize (Single ''Student from Other School, not from My School''))
   \<and> contains ''student from '' (normalize (Single ''Student from Other School, not from My School''))"
    by code_simp
  from h gatekeeper_allow_precedence [of "Single ''Student from Other School, not from My School''",
         THEN conjunct1]
  show ?thesis by simp
qed


text \<open>
  C4. When the normalized text contains neither allow-phrase and at least one of the five
  deny-phrases, the School-Gatekeeper Predicate triggers with the reason
  \<open>other school detected\<close>. The loop over the list returns at the first phrase, in list
  order, that the text contains: what follows that phrase in the list is not looked at.
\<close>

theorem gatekeeper_deny_phrase:
  "\<not> contains ''from my school'' (normalize inp) \<and> \<not> contains ''my school student'' (normalize inp)
   \<and> (contains ''other school'' (normalize inp) \<or> contains ''different school'' (normalize inp)
      \<or> contains ''not from my school'' (normalize inp) \<or> contains ''from other school'' (normalize inp)
      \<or> contains ''student from '' (normalize inp))
   \<longrightarrow> gatekeeper_guardrail inp =
         Inr \<lparr>output_info = [(''reason'', VStr ''other school detected''), (''text'', VStr (unify inp))],
              tripwire_triggered = True\<rparr>
       \<and> (\<exists>ps t qs.
             [''other school'', ''different school'', ''not from my school'', ''from other school'',
              ''student from ''] = ps @ t # qs
             \<and> contains t (normalize inp) \<and> list_all (\<lambda>p. \<not> contains p (normalize inp)) ps
             \<and> (\<forall>qs'. scan_triggers (ps @ t # qs') (normalize inp) (unify inp) =
                   Some \<lparr>output_info = [(''reason'', VStr ''other school detected''),
                                         (''text'', VStr (unify inp))],
                         tripwire_triggered = True\<rparr>))"
proof (intro impI)
  assume a: "\<not> contains ''from my school'' (normalize inp) \<and> \<not> contains ''my school student'' (normalize inp)
   \<and> (contains ''other school'' (normalize inp) \<or> contains ''different school'' (normalize inp)
      \<or> contains ''not from my school'' (normalize inp) \<or> contains ''from other school'' (normalize inp)
      \<or> contains ''student from '' (normalize inp))"
  let ?out = "\<lparr>output_info = [(''reason'', VStr ''other school detected''), (''text'', VStr (unify inp))],
              tripwire_triggered = True\<rparr>"
  from a have "\<not> list_all (\<lambda>p. \<not> contains p (normalize inp)) triggers"
    unfolding triggers_def by (simp del: contains.simps)
  from first_hit_split[OF this] obtain ps t qs where
    s: "triggers = ps @ t # qs" "contains t (normalize inp)"
       "list_all (\<lambda>p. \<not> contains p (normalize inp)) ps"
    by blast
  have sc: "scan_triggers (ps @ t # qs') (normalize inp) (unify inp) = Some ?out" for qs'
    using scan_triggers_first[OF s(2,3)] by simp
  have "scan_triggers triggers (normalize inp) (unify inp) = Some ?out"
    unfolding s(1) by (rule sc)
  with a have g: "gatekeeper_guardrail inp = Inr ?out"
    by (simp add: gatekeeper_guardrail_def normalize_def Let_def)
  from s(1) have "[''other school'', ''different school'', ''not from my school'', ''from other school'',
              ''student from ''] = ps @ t # qs" by (simp add: triggers_def)
  with g s(2,3) sc show "gatekeeper_guardrail inp = Inr ?out
       \<and> (\<exists>ps t qs.
             [''other school'', ''different school'', ''not from my school'', ''from other school'',
              ''student from ''] = ps @ t # qs
             \<and> contains t (normalize inp) \<and> list_all (\<lambda>p. \<not> contains p (normalize inp)) ps
             \<and> (\<forall>qs'. scan_triggers (ps @ t # qs') (normalize inp) (unify inp) = Some ?out))"
    by blast
qed

theorem gatekeeper_deny_phrase_witness:
  "gatekeeper_guardrail (Single ''Student from Other School wants to enter'') =
     Inr \<lparr>output_info = [(''reason'', VStr ''other school detected''),
                          (''text'', VStr ''Student from Other School wants to enter'')],
          tripwire_triggered = True\<rparr>"
proof -
  have h: "\<not> contains ''from my school'' (normalize (Single ''Student from Other School wants to enter''))
    \<and> \<not> contains ''my school student'' (normalize (Single ''Student from Other School wants to enter''))
    \<and> (contains ''other school'' (normalize (Single ''Student from Other School wants to enter''))
      \<or> contains ''different school'' (normalize (Single ''Student from Other School wants to enter''))
      \<or> contains ''not from my school'' (normalize (Single ''Student from Other School wants to enter''))
      \<or> contains ''from other school'' (normalize (Single ''Student from Other School wants to enter''))
      \<or> contains ''student from '' (normalize (Single ''Student from Other School wants to enter'')))"
    by code_simp
  from gatekeeper_deny_phrase [of "Single ''Student from Other School wants to enter''", rule_format, OF h]
  show ?thesis by simp
qed



text \<open>
  C9. A text that names no other school can trigger the School-Gatekeeper Predicate. When
  the normalized text holds no allow-phrase and no deny-phrase, and its first \<open>school\<close>
  is followed by separators and then a letter or digit, the capture is the run of
  letters, digits and spaces from there on, and the predicate triggers with it as
  \<open>school_name\<close> unless it contains \<open>my school\<close>. For the input
  \<open>my school is great\<close> the capture is \<open>is great\<close> and the predicate triggers.
\<close>

theorem school_word_alone_triggers:
  "(\<forall>pre seps c r.
      normalize inp = pre @ ''school'' @ seps @ c # r \<and> \<not> contains ''school'' (pre @ ''schoo'')
      \<and> list_all is_sep seps \<and> is_name_char c \<and> c \<noteq> CHR '' ''
      \<and> \<not> contains ''from my school'' (normalize inp) \<and> \<not> contains ''my school student'' (normalize inp)
      \<and> \<not> contains ''other school'' (normalize inp) \<and> \<not> contains ''different school'' (normalize inp)
      \<and> \<not> contains ''not from my school'' (normalize inp)
      \<and> \<not> contains ''from other school'' (normalize inp)
      \<and> \<not> contains ''student from '' (normalize inp)
      \<and> \<not> contains ''my school'' (takeWhile is_name_char (c # r))
      \<longrightarrow> gatekeeper_guardrail inp =
            Inr \<lparr>output_info = [(''school_name'', VStr (strip (takeWhile is_name_char (c # r)))),
                                 (''text'', VStr (unify inp))],
                 tripwire_triggered = True\<rparr>)
   \<and> \<not> contains ''from my school'' (normalize (Single ''my school is great''))
   \<and> \<not> contains ''my school student'' (normalize (Single ''my school is great''))
   \<and> list_all (\<lambda>p. \<not> contains p (normalize (Single ''my school is great''))) triggers
   \<and> \<not> contains ''other'' (normalize (Single ''my school is great''))
   \<and> map_option group1 (re_search school_pattern (normalize (Single ''my school is great'')))
       = Some (Some ''is great'')
   \<and> \<not> contains ''my school'' ''is great''
   \<and> gatekeeper_guardrail (Single ''my school is great'') =
       Inr \<lparr>output_info = [(''school_name'', VStr ''is great''),
                            (''text'', VStr ''my school is great'')],
            tripwire_triggered = True\<rparr>"
proof (intro conjI allI impI)
  fix pre seps c r
  assume a: "normalize inp = pre @ ''school'' @ seps @ c # r \<and> \<not> contains ''school'' (pre @ ''schoo'')
      \<and> list_all is_sep seps \<and> is_name_char c \<and> c \<noteq> CHR '' ''
      \<and> \<not> contains ''from my school'' (normalize inp) \<and> \<not> contains ''my school student'' (normalize inp)
      \<and> \<not> contains ''other school'' (normalize inp) \<and> \<not> contains ''different school'' (normalize inp)
      \<and> \<not> contains ''not from my school'' (normalize inp)
      \<and> \<not> contains ''from other school'' (normalize inp)
      \<and> \<not> contains ''student from '' (normalize inp)
      \<and> \<not> contains ''my school'' (takeWhile is_name_char (c # r))"
  then have d: "normalize inp = pre @ ''school'' @ seps @ c # r"
    and f: "\<not> contains ''school'' (pre @ ''schoo'')"
    and s: "list_all is_sep seps" "is_name_char c" "c \<noteq> CHR '' ''"
    and n1: "\<not> contains ''from my school'' (normalize inp)"
    and n2: "\<not> contains ''my school student'' (normalize inp)"
    and g: "\<not> contains ''my school'' (takeWhile is_name_char (c # r))"
    by blast+
  from a have dn: "\<not> contains ''other school'' (normalize inp)"
      "\<not> contains ''different school'' (normalize inp)"
      "\<not> contains ''not from my school'' (normalize inp)"
      "\<not> contains ''from other school'' (normalize inp)"
      "\<not> contains ''student from '' (normalize inp)"
    by blast+
  then have nd: "list_all (\<lambda>p. \<not> contains p (normalize inp)) triggers"
    unfolding triggers_def by (simp del: contains.simps)
  from search_school_first[OF s f, of None r] obtain m where
    m: "re_search school_pattern (normalize inp) = Some m"
       "group1 m = Some (takeWhile is_name_char (c # r))"
    unfolding re_search_def group1_def d by blast
  show "gatekeeper_guardrail inp =
            Inr \<lparr>output_info = [(''school_name'', VStr (strip (takeWhile is_name_char (c # r)))),
                                 (''text'', VStr (unify inp))],
                 tripwire_triggered = True\<rparr>"
    using gatekeeper_fallback[OF n1 n2 nd] m g by simp
qed code_simp+

theorem school_word_alone_triggers_witness:
  "gatekeeper_guardrail (Single ''Our School: rocks22!'') =
     Inr \<lparr>output_info = [(''school_name'', VStr ''rocks22''), (''text'', VStr ''Our School: rocks22!'')],
          tripwire_triggered = True\<rparr>"
proof -
  let ?i = "Single ''Our School: rocks22!''"
  have h: "normalize ?i = ''our '' @ ''school'' @ '': '' @ CHR ''r'' # ''ocks22!''
      \<and> \<not> contains ''school'' (''our '' @ ''schoo'')
      \<and> list_all is_sep '': '' \<and> is_name_char CHR ''r'' \<and> CHR ''r'' \<noteq> CHR '' ''
      \<and> \<not> contains ''from my school'' (normalize ?i) \<and> \<not> contains ''my school student'' (normalize ?i)
      \<and> \<not> contains ''other school'' (normalize ?i) \<and> \<not> contains ''different school'' (normalize ?i)
      \<and> \<not> contains ''not from my school'' (normalize ?i)
      \<and> \<not> contains ''from other school'' (normalize ?i)
      \<and> \<not> contains ''student from '' (normalize ?i)
      \<and> \<not> contains ''my school'' (takeWhile is_name_char (CHR ''r'' # ''ocks22!''))"
    by code_simp
  have e: "strip (takeWhile is_name_char (CHR ''r'' # ''ocks22!'')) = ''rocks22''" by code_simp
  from school_word_alone_triggers [of ?i, THEN conjunct1, rule_format, OF h]
  show ?thesis unfolding e by simp
qed

section \<open>Claims about the diagnostics\<close>

text \<open>
  C6 as stated fails: for the input \<open>Hello\<close> the normalized text is \<open>hello\<close>, but
  each of the three predicates stores \<open>Hello\<close> under \<open>text\<close>.
\<close>

theorem text_diagnostic_not_normalized:
  "normalize (Single ''Hello'') = ''hello''
   \<and> map_of (output_info (class_timing_guardrail (Single ''Hello''))) ''text'' = Some (VStr ''Hello'')
   \<and> map_of (output_info (class_timing_guardrail (Single ''Hello''))) ''text''
       \<noteq> Some (VStr (normalize (Single ''Hello'')))
   \<and> father_temp_guardrail (Single ''Hello'') =
       Inr \<lparr>output_info = [(''detected_temp'', VNone), (''text'', VStr ''Hello'')],
            tripwire_triggered = False\<rparr>
   \<and> gatekeeper_guardrail (Single ''Hello'') =
       Inr \<lparr>output_info = [(''allowed'', VBool True), (''text'', VStr ''Hello'')],
            tripwire_triggered = False\<rparr>"
  by code_simp

text \<open>
  C6, amended. Each of the three predicates returns a verdict, and the value it stores
  under \<open>text\<close> is the flattened input before lowercasing; the normalized text is the
  lowercased form of that value.
\<close>

theorem text_diagnostic_is_unified:
  "map_of (output_info (class_timing_guardrail inp)) ''text'' = Some (VStr (unify inp))
   \<and> (\<exists>out. father_temp_guardrail inp = Inr out
         \<and> map_of (output_info out) ''text'' = Some (VStr (unify inp)))
   \<and> (\<exists>out. gatekeeper_guardrail inp = Inr out
         \<and> map_of (output_info out) ''text'' = Some (VStr (unify inp)))
   \<and> normalize inp = lower (unify inp)"
proof -
  have "map_of (output_info (class_timing_guardrail inp)) ''text'' = Some (VStr (unify inp))"
    by (simp add: class_timing_guardrail_def Let_def)
  with father_total_text[of inp] gatekeeper_total_text[of inp] show ?thesis
    by (simp add: normalize_def)
qed

end
